theory Spec2Isabelle
  imports Main
begin

section \<open>Admission control (limiter.js)\<close>

text \<open>
  A socket as the limiter reads it: \<open>socket.handshake\<close> may be missing, its
  \<open>address\<close> may be missing, and \<open>headers\<close> maps header names to values.
  A JavaScript value is falsy when it is \<open>undefined\<close>/\<open>null\<close> (\<open>None\<close>) or the
  empty string.
\<close>

record handshake =
  address :: "string option"
  headers :: "string \<rightharpoonup> string"

record socket =
  handshake :: "handshake option"

definition truthy :: "string option \<Rightarrow> bool" where
  "truthy v = (case v of None \<Rightarrow> False | Some s \<Rightarrow> s \<noteq> [])"

definition MAX_IP_CONNECTIONS :: nat where
  "MAX_IP_CONNECTIONS = 10"

definition MAX_IP_REQUESTS_PER_MINUTE :: nat where
  "MAX_IP_REQUESTS_PER_MINUTE = 5"

text \<open>\<open>getSocketIp\<close>: \<open>null\<close> is \<open>None\<close>; \<open>x || null\<close> is \<open>x\<close> when \<open>x\<close> is truthy.\<close>

definition getSocketIp :: "socket \<Rightarrow> string option" where
  "getSocketIp sock =
     (case handshake sock of
        None \<Rightarrow> None
      | Some h \<Rightarrow>
          (case address h of
             None \<Rightarrow> None
           | Some ip \<Rightarrow>
               if ip = [] then None
               else if ip \<in> set [''::1'', ''::ffff:127.0.0.1'']
                 then (if truthy (headers h ''x-forwarded-for'')
                       then headers h ''x-forwarded-for'' else None)
                 else Some ip))"

text \<open>\<open>m.get(k) || 0\<close> on a map of numbers.\<close>

definition get_or_0 :: "(string \<rightharpoonup> nat) \<Rightarrow> string \<Rightarrow> nat" where
  "get_or_0 m k = (case m k of None \<Rightarrow> 0 | Some c \<Rightarrow> c)"

text \<open>
  \<open>getOverallIpConnectionCounts\<close>: the \<open>forEach\<close> over the sockets of the default
  namespace, here the list of the live sockets.
\<close>

definition count_socket :: "(string \<rightharpoonup> nat) \<Rightarrow> socket \<Rightarrow> (string \<rightharpoonup> nat)" where
  "count_socket ipCounts sock =
     (case getSocketIp sock of
        None \<Rightarrow> ipCounts
      | Some ip \<Rightarrow> ipCounts(ip \<mapsto> get_or_0 ipCounts ip + 1))"

definition getOverallIpConnectionCounts :: "socket list \<Rightarrow> (string \<rightharpoonup> nat)" where
  "getOverallIpConnectionCounts io = foldl count_socket Map.empty io"

text \<open>
  \<open>clientBlocked\<close> reads and updates the module-level map \<open>ipRequestCounts\<close> and
  writes warnings to the console: the model returns the verdict, the new map and the
  warnings.
\<close>

datatype warning =
    FailedToRetrieveIp
  | MaxConnectionsExceeded nat string
  | MaxRequestsExceeded nat string

definition clientBlocked ::
  "socket list \<Rightarrow> socket \<Rightarrow> (string \<rightharpoonup> nat) \<Rightarrow> bool \<times> (string \<rightharpoonup> nat) \<times> warning list" where
  "clientBlocked io currentSocket ipRequestCounts =
     (let ipCounts = getOverallIpConnectionCounts io in
      case getSocketIp currentSocket of
        None \<Rightarrow> (False, ipRequestCounts, [FailedToRetrieveIp])
      | Some currentIp \<Rightarrow>
          (let currentIpConnections = get_or_0 ipCounts currentIp;
               currentIpRequests = get_or_0 ipRequestCounts currentIp;
               ipRequestCounts' = ipRequestCounts(currentIp \<mapsto> currentIpRequests + 1)
           in if currentIpConnections > MAX_IP_CONNECTIONS
                then (True, ipRequestCounts',
                      [MaxConnectionsExceeded MAX_IP_CONNECTIONS currentIp])
              else if currentIpRequests > MAX_IP_REQUESTS_PER_MINUTE
                then (True, ipRequestCounts',
                      [MaxRequestsExceeded MAX_IP_REQUESTS_PER_MINUTE currentIp])
              else (False, ipRequestCounts', [])))"

text \<open>The \<open>setInterval\<close> callback that runs every 60 seconds: \<open>ipRequestCounts.clear()\<close>.\<close>

definition clearRequestCounts :: "(string \<rightharpoonup> nat) \<Rightarrow> (string \<rightharpoonup> nat)" where
  "clearRequestCounts ipRequestCounts = Map.empty"

text \<open>
  A run of the limiter: admission checks (each on the sockets live at that moment) and
  expiries of the 60-second timer, with the verdicts collected in order.
\<close>

datatype limiter_event = Check "socket list" socket | WindowElapsed

fun limiter_run :: "limiter_event list \<Rightarrow> (string \<rightharpoonup> nat) \<Rightarrow> bool list" where
  "limiter_run [] cnts = []"
| "limiter_run (Check io sock # evs) cnts =
     (case clientBlocked io sock cnts of (b, cnts', _) \<Rightarrow> b # limiter_run evs cnts')"
| "limiter_run (WindowElapsed # evs) cnts = limiter_run evs (clearRequestCounts cnts)"

text \<open>A socket whose peer address is \<open>ip\<close>, with no headers.\<close>

definition socket_from :: "string \<Rightarrow> socket" where
  "socket_from ip = \<lparr>handshake = Some \<lparr>address = Some ip, headers = Map.empty\<rparr>\<rparr>"


section \<open>The connection wrapper (connectionWrapper.js)\<close>

text \<open>
  \<open>TikTokConnectionWrapper\<close> is driven by callbacks on one event loop: calls of its
  owner (\<open>connect()\<close>, \<open>disconnect()\<close>), the settlement of a pending
  \<open>this.#connection.connect()\<close>, the events of the upstream connection and the expiry of
  a reconnect timer. Each callback is a function on the state below; what it does to the
  outside (events emitted to the owner, calls of the upstream connection, timers armed,
  console output) is appended to \<open>trace\<close>. The listeners of the owner are taken not
  to throw, and a rejected \<open>connect()\<close> to carry an error object.
\<close>

type_synonym conn_state = "string \<times> bool" \<comment> \<open>\<open>roomId\<close>, \<open>upgradedToWebsocket\<close>\<close>

datatype owner_event = Connected conn_state | Disconnected string | StreamEnd

datatype log_msg =
    LogStreamEnded
  | LogUpstreamDisconnected
  | LogError
  | LogConnected bool conn_state
  | LogFailed bool string
  | LogGivingUp
  | LogReconnecting nat nat nat
  | LogClientDisconnected

datatype effect =
    Emit owner_event \<comment> \<open>\<open>this.emit(...)\<close>\<close>
  | UpstreamConnect bool \<comment> \<open>\<open>this.#connection.connect()\<close>, called by \<open>connect(isReconnect)\<close>\<close>
  | UpstreamDisconnect \<comment> \<open>\<open>this.#connection.disconnect()\<close>\<close>
  | SetTimeout nat \<comment> \<open>\<open>setTimeout(callback, ms)\<close>\<close>
  | ConsoleLog log_msg
  | ConsoleError

text \<open>
  The private fields of the class and the module-level \<open>globalConnectionCount\<close>, followed
  by what the environment holds for this wrapper. The upstream connection
  (\<open>WebcastPushConnection\<close>) is an external library: of it the model keeps
  \<open>upIsConnected\<close>, the value of \<open>getState()?.isConnected\<close>, true from a fulfilled
  \<open>connect()\<close> until \<open>disconnect()\<close> is called on it or it raises \<open>disconnected\<close>, and
  \<open>upOpen\<close>, true from a fulfilled \<open>connect()\<close> until it raises \<open>disconnected\<close>.
  \<open>pendingConnects\<close> are the unsettled \<open>connect(isReconnect)\<close> calls,
  \<open>pendingTimers\<close> the number of armed reconnect timers (they all run the same callback).
\<close>

record wrapper =
  uniqueId :: string
  enableLog :: bool
  clientDisconnected :: bool
  reconnectEnabled :: bool
  reconnectCount :: nat
  reconnectWaitMs :: nat
  globalConnectionCount :: int
  upIsConnected :: bool
  upOpen :: bool
  pendingConnects :: "bool list"
  pendingTimers :: nat
  trace :: "effect list"

definition maxReconnectAttempts :: nat where
  "maxReconnectAttempts = 5"

definition maxReconnectWaitMs :: nat where
  "maxReconnectWaitMs = 32000"

text \<open>The constructor, in a process whose connection counter stands at \<open>g\<close>.\<close>

definition new_wrapper :: "string \<Rightarrow> bool \<Rightarrow> int \<Rightarrow> wrapper" where
  "new_wrapper uid logging g =
     \<lparr>uniqueId = uid, enableLog = logging, clientDisconnected = False,
      reconnectEnabled = True, reconnectCount = 0, reconnectWaitMs = 1000,
      globalConnectionCount = g, upIsConnected = False, upOpen = False,
      pendingConnects = [], pendingTimers = 0, trace = []\<rparr>"

definition effect :: "effect \<Rightarrow> wrapper \<Rightarrow> wrapper" where
  "effect e s = s\<lparr>trace := trace s @ [e]\<rparr>"

definition emit :: "owner_event \<Rightarrow> wrapper \<Rightarrow> wrapper" where
  "emit ev s = effect (Emit ev) s"

definition log :: "log_msg \<Rightarrow> wrapper \<Rightarrow> wrapper" where
  "log msg s = (if enableLog s then effect (ConsoleLog msg) s else s)"

text \<open>
  \<open>connect(isReconnect)\<close> up to its \<open>await\<close>: the upstream \<open>connect()\<close> is called and
  the rest of the body waits for the promise to settle.
\<close>

definition connect :: "bool \<Rightarrow> wrapper \<Rightarrow> wrapper" where
  "connect isReconnect s =
     effect (UpstreamConnect isReconnect)
       (s\<lparr>pendingConnects := pendingConnects s @ [isReconnect]\<rparr>)"

definition disconnect :: "wrapper \<Rightarrow> wrapper" where
  "disconnect s =
     (if clientDisconnected s then s
      else
        (let s1 = log LogClientDisconnected s;
             s2 = s1\<lparr>clientDisconnected := True, reconnectEnabled := False\<rparr>
         in if upIsConnected s2
              then effect UpstreamDisconnect (s2\<lparr>upIsConnected := False\<rparr>)
            else s2))"

text \<open>The body of \<open>connect\<close> after the promise is fulfilled with \<open>state\<close>.\<close>

definition connect_fulfilled :: "bool \<Rightarrow> conn_state \<Rightarrow> wrapper \<Rightarrow> wrapper" where
  "connect_fulfilled isReconnect state s =
     (let s1 = log (LogConnected isReconnect state) s;
          s2 = s1\<lparr>globalConnectionCount := globalConnectionCount s1 + 1\<rparr>;
          s3 = s2\<lparr>reconnectCount := 0, reconnectWaitMs := 1000\<rparr>
      in if clientDisconnected s3 then disconnect s3
         else if \<not> isReconnect then emit (Connected state) s3
         else s3)"

definition scheduleReconnect :: "string \<Rightarrow> wrapper \<Rightarrow> wrapper" where
  "scheduleReconnect reason s =
     (if \<not> reconnectEnabled s \<or> reconnectCount s \<ge> maxReconnectAttempts
        then emit (Disconnected (''Connection lost. '' @ reason)) (log LogGivingUp s)
      else
        (let s1 = log (LogReconnecting (reconnectWaitMs s) (reconnectCount s + 1)
                         maxReconnectAttempts) s
         in effect (SetTimeout (reconnectWaitMs s1))
              (s1\<lparr>pendingTimers := pendingTimers s1 + 1\<rparr>)))"

text \<open>
  The \<open>catch\<close> branch of \<open>connect\<close>; \<open>err\<close> is the error as a string
  (\<open>err.toString()\<close>, which is also what the template literal of \<open>#scheduleReconnect\<close>
  makes of it).
\<close>

definition connect_rejected :: "bool \<Rightarrow> string \<Rightarrow> wrapper \<Rightarrow> wrapper" where
  "connect_rejected isReconnect err s =
     (let s1 = log (LogFailed isReconnect err) s
      in if isReconnect then scheduleReconnect err s1
         else emit (Disconnected err) s1)"

text \<open>The callback given to \<open>setTimeout\<close> in \<open>#scheduleReconnect\<close>.\<close>

definition reconnectTimer :: "wrapper \<Rightarrow> wrapper" where
  "reconnectTimer s =
     (if \<not> reconnectEnabled s \<or> reconnectCount s \<ge> maxReconnectAttempts then s
      else
        connect True
          (s\<lparr>reconnectCount := reconnectCount s + 1,
             reconnectWaitMs := min (reconnectWaitMs s * 2) maxReconnectWaitMs\<rparr>))"

text \<open>The listeners of \<open>#setupEventListeners\<close>.\<close>

definition on_streamEnd :: "wrapper \<Rightarrow> wrapper" where
  "on_streamEnd s = emit StreamEnd ((log LogStreamEnded s)\<lparr>reconnectEnabled := False\<rparr>)"

definition on_disconnected :: "wrapper \<Rightarrow> wrapper" where
  "on_disconnected s =
     scheduleReconnect ''Unknown error''
       (log LogUpstreamDisconnected
          (s\<lparr>globalConnectionCount := max 0 (globalConnectionCount s - 1)\<rparr>))"

definition on_error :: "wrapper \<Rightarrow> wrapper" where
  "on_error s = effect ConsoleError (log LogError s)"

definition getGlobalConnectionCount :: "wrapper \<Rightarrow> int" where
  "getGlobalConnectionCount s = globalConnectionCount s"

subsection \<open>The event loop\<close>

datatype event =
    CallConnect \<comment> \<open>the owner calls \<open>connect()\<close>\<close>
  | CallDisconnect \<comment> \<open>the owner calls \<open>disconnect()\<close>\<close>
  | ConnectFulfilled bool conn_state \<comment> \<open>a pending \<open>connect(isReconnect)\<close> succeeds\<close>
  | ConnectRejected bool string \<comment> \<open>a pending \<open>connect(isReconnect)\<close> fails\<close>
  | UpstreamStreamEnd
  | UpstreamDisconnected
  | UpstreamError
  | TimerFires

text \<open>
  One callback. An event that cannot happen in a state (no such pending call, no armed
  timer) gives \<open>None\<close>. The upstream events are not restricted: the connection may
  raise \<open>disconnected\<close> or \<open>streamEnd\<close> at any moment.
\<close>

fun step :: "event \<Rightarrow> wrapper \<Rightarrow> wrapper option" where
  "step CallConnect s = Some (connect False s)"
| "step CallDisconnect s = Some (disconnect s)"
| "step (ConnectFulfilled isReconnect state) s =
     (if isReconnect \<in> set (pendingConnects s)
        then Some (connect_fulfilled isReconnect state
               (s\<lparr>pendingConnects := remove1 isReconnect (pendingConnects s),
                  upIsConnected := True, upOpen := True\<rparr>))
      else None)"
| "step (ConnectRejected isReconnect err) s =
     (if isReconnect \<in> set (pendingConnects s)
        then Some (connect_rejected isReconnect err
               (s\<lparr>pendingConnects := remove1 isReconnect (pendingConnects s)\<rparr>))
      else None)"
| "step UpstreamStreamEnd s = Some (on_streamEnd s)"
| "step UpstreamDisconnected s =
     Some (on_disconnected (s\<lparr>upIsConnected := False, upOpen := False\<rparr>))"
| "step UpstreamError s = Some (on_error s)"
| "step TimerFires s =
     (if pendingTimers s > 0
        then Some (reconnectTimer (s\<lparr>pendingTimers := pendingTimers s - 1\<rparr>))
      else None)"

fun run :: "event list \<Rightarrow> wrapper \<Rightarrow> wrapper option" where
  "run [] s = Some s"
| "run (e # es) s = (case step e s of None \<Rightarrow> None | Some s' \<Rightarrow> run es s')"

text \<open>What a trace shows.\<close>

definition emitted :: "wrapper \<Rightarrow> owner_event list" where
  "emitted s = [ev. Emit ev \<leftarrow> trace s]"

definition reconnectAttempts :: "wrapper \<Rightarrow> nat" where
  "reconnectAttempts s = count_list (trace s) (UpstreamConnect True)"

definition armedDelays :: "wrapper \<Rightarrow> nat list" where
  "armedDelays s = [ms. SetTimeout ms \<leftarrow> trace s]"

definition upstreamDisconnects :: "wrapper \<Rightarrow> nat" where
  "upstreamDisconnects s = count_list (trace s) UpstreamDisconnect"

definition upstreamConnects :: "wrapper \<Rightarrow> nat" where
  "upstreamConnects s = length [b. UpstreamConnect b \<leftarrow> trace s]"

text \<open>The timers armed and the reconnect attempts made, in the order of the trace.\<close>

definition reconnectSchedule :: "wrapper \<Rightarrow> effect list" where
  "reconnectSchedule s =
     filter (\<lambda>e. case e of SetTimeout _ \<Rightarrow> True | UpstreamConnect b \<Rightarrow> b | _ \<Rightarrow> False) (trace s)"

fun is_Disconnected :: "owner_event \<Rightarrow> bool" where
  "is_Disconnected (Disconnected _) = True"
| "is_Disconnected _ = False"

fun is_ConnectFulfilled :: "event \<Rightarrow> bool" where
  "is_ConnectFulfilled (ConnectFulfilled _ _) = True"
| "is_ConnectFulfilled _ = False"


definition disconnectedCount :: "wrapper \<Rightarrow> nat" where
  "disconnectedCount s = length (filter is_Disconnected (emitted s))"

subsection \<open>Several wrappers in one process\<close>

text \<open>
  \<open>globalConnectionCount\<close> is one variable of the module, shared by every wrapper of the
  process: wrapper \<open>i\<close> runs a callback on the current value and leaves the new one.
\<close>

type_synonym world = "int \<times> wrapper list"

fun world_step :: "nat \<times> event \<Rightarrow> world \<Rightarrow> world option" where
  "world_step (i, e) (g, ws) =
     (if i < length ws
        then (case step e ((ws ! i)\<lparr>globalConnectionCount := g\<rparr>) of
                None \<Rightarrow> None
              | Some w' \<Rightarrow> Some (globalConnectionCount w', ws[i := w']))
      else None)"

fun world_run :: "(nat \<times> event) list \<Rightarrow> world \<Rightarrow> world option" where
  "world_run [] w = Some w"
| "world_run (e # es) w = (case world_step e w of None \<Rightarrow> None | Some w' \<Rightarrow> world_run es w')"

subsection \<open>An orderly environment\<close>

text \<open>
  The environment is orderly when the owner calls \<open>connect()\<close> once, as the server does
  right after the constructor, and the upstream connection raises \<open>disconnected\<close> once
  for a connection it has established and \<open>streamEnd\<close> only while it has one.
\<close>

fun expected :: "event \<Rightarrow> wrapper \<Rightarrow> bool" where
  "expected CallConnect s = (UpstreamConnect False \<notin> set (trace s))"
| "expected UpstreamDisconnected s = upOpen s"
| "expected UpstreamStreamEnd s = upOpen s"
| "expected _ s = True"

fun orderly_run :: "event list \<Rightarrow> wrapper \<Rightarrow> wrapper option" where
  "orderly_run [] s = Some s"
| "orderly_run (e # es) s =
     (if expected e s
        then (case step e s of None \<Rightarrow> None | Some s' \<Rightarrow> orderly_run es s')
      else None)"

subsection \<open>Invariants and sample states\<close>

text \<open>
  What can still make the wrapper act: the owner's \<open>connect()\<close> not yet called, an
  unsettled upstream \<open>connect()\<close>, an armed timer, an upstream connection that has not
  yet raised \<open>disconnected\<close>.
\<close>

definition live :: "wrapper \<Rightarrow> nat" where
  "live s =
     (if UpstreamConnect False \<in> set (trace s) then 0 else 1) + length (pendingConnects s) +
     pendingTimers s + (if upOpen s then 1 else 0)"

definition orderly_inv :: "wrapper \<Rightarrow> bool" where
  "orderly_inv s \<longleftrightarrow> live s + disconnectedCount s \<le> 1 \<and> (upIsConnected s \<longrightarrow> upOpen s)"

definition backoff_inv :: "wrapper \<Rightarrow> bool" where
  "backoff_inv s \<longleftrightarrow>
     reconnectCount s \<le> maxReconnectAttempts \<and>
     reconnectWaitMs s = 1000 * 2 ^ reconnectCount s \<and>
     set (armedDelays s) \<subseteq> {1000, 2000, 4000, 8000, 16000}"

text \<open>
  Sample states: a wrapper whose first connect succeeded, the same wrapper after the
  upstream connection dropped and five reconnects failed one after the other, a wrapper
  whose owner called \<open>disconnect()\<close> while the first connect was pending, and a
  wrapper waiting for its first reconnect timer.
\<close>

text \<open>
  Timers and attempts taking turns, each timer twice as long as the one before; the
  invariant says how far a wrapper has got in it since the schedule was \<open>base\<close>.
\<close>

definition backoff_schedule :: "effect list" where
  "backoff_schedule =
     [SetTimeout 1000, UpstreamConnect True, SetTimeout 2000, UpstreamConnect True,
      SetTimeout 4000, UpstreamConnect True, SetTimeout 8000, UpstreamConnect True,
      SetTimeout 16000, UpstreamConnect True]"

definition schedule_inv :: "effect list \<Rightarrow> wrapper \<Rightarrow> bool" where
  "schedule_inv base s \<longleftrightarrow>
     reconnectCount s \<le> 5 \<and> reconnectWaitMs s = 1000 * 2 ^ reconnectCount s \<and>
     (if pendingTimers s = 0
      then reconnectSchedule s = base @ take (2 * reconnectCount s) backoff_schedule \<or>
           (reconnectSchedule s = base @ take (2 * reconnectCount s + 1) backoff_schedule \<and>
            reconnectEnabled s = False)
      else pendingTimers s = 1 \<and> reconnectCount s < 5 \<and>
           reconnectSchedule s = base @ take (2 * reconnectCount s + 1) backoff_schedule)"

definition room :: conn_state where
  "room = (''7318296045'', True)"

definition connected_wrapper :: wrapper where
  "connected_wrapper =
     \<lparr>uniqueId = ''streamer'', enableLog = False, clientDisconnected = False,
      reconnectEnabled = True, reconnectCount = 0, reconnectWaitMs = 1000,
      globalConnectionCount = 1, upIsConnected = True, upOpen = True,
      pendingConnects = [], pendingTimers = 0,
      trace = [UpstreamConnect False, Emit (Connected room)]\<rparr>"

definition failing_reconnects :: "event list" where
  "failing_reconnects =
     [UpstreamDisconnected,
      TimerFires, ConnectRejected True ''Error: offline'',
      TimerFires, ConnectRejected True ''Error: offline'',
      TimerFires, ConnectRejected True ''Error: offline'',
      TimerFires, ConnectRejected True ''Error: offline'',
      TimerFires, ConnectRejected True ''Error: offline'']"

definition exhausted_wrapper :: wrapper where
  "exhausted_wrapper =
     \<lparr>uniqueId = ''streamer'', enableLog = False, clientDisconnected = False,
      reconnectEnabled = True, reconnectCount = 5, reconnectWaitMs = 32000,
      globalConnectionCount = 0, upIsConnected = False, upOpen = False,
      pendingConnects = [], pendingTimers = 0,
      trace = [UpstreamConnect False, Emit (Connected room),
               SetTimeout 1000, UpstreamConnect True,
               SetTimeout 2000, UpstreamConnect True,
               SetTimeout 4000, UpstreamConnect True,
               SetTimeout 8000, UpstreamConnect True,
               SetTimeout 16000, UpstreamConnect True,
               Emit (Disconnected ''Connection lost. Error: offline'')]\<rparr>"

definition disconnect_requested :: wrapper where
  "disconnect_requested = disconnect (connect False (new_wrapper ''streamer'' False 7))"

definition reconnecting_wrapper :: wrapper where
  "reconnecting_wrapper =
     on_disconnected (connected_wrapper\<lparr>upIsConnected := False, upOpen := False\<rparr>)"

section \<open>Properties of the admission check\<close>

lemma get_or_0_count_socket:
  "get_or_0 (count_socket m sock) ip =
     get_or_0 m ip + (if getSocketIp sock = Some ip then 1 else 0)"
  by (simp add: count_socket_def get_or_0_def split: option.splits)

lemma get_or_0_foldl_count_socket:
  "get_or_0 (foldl count_socket m io) ip =
     get_or_0 m ip + length (filter (\<lambda>s. getSocketIp s = Some ip) io)"
  by (induction io arbitrary: m) (simp_all add: get_or_0_count_socket)

lemma connections_of_ip:
  "get_or_0 (getOverallIpConnectionCounts io) ip =
     length (filter (\<lambda>s. getSocketIp s = Some ip) io)"
proof -
  have "get_or_0 Map.empty ip = 0" by (simp add: get_or_0_def)
  then show ?thesis
    by (simp add: getOverallIpConnectionCounts_def get_or_0_foldl_count_socket)
qed

lemma clientBlocked_verdict:
  assumes "getSocketIp cur = Some ip"
  shows "fst (clientBlocked io cur cnts) \<longleftrightarrow>
           length (filter (\<lambda>s. getSocketIp s = Some ip) io) > MAX_IP_CONNECTIONS
           \<or> get_or_0 cnts ip > MAX_IP_REQUESTS_PER_MINUTE"
    and "fst (snd (clientBlocked io cur cnts)) = cnts(ip \<mapsto> get_or_0 cnts ip + 1)"
  using assms by (simp_all add: clientBlocked_def Let_def connections_of_ip)

text \<open>\<open>getSocketIp\<close> returns \<open>null\<close> or a non-empty string, so \<open>!currentIp\<close> is the test for \<open>null\<close>.\<close>

lemma getSocketIp_truthy: "getSocketIp sock = Some ip \<Longrightarrow> ip \<noteq> []"
  by (auto simp: getSocketIp_def truthy_def split: option.splits if_splits)

lemma getSocketIp_None_iff:
  "getSocketIp sock = None \<longleftrightarrow>
     (case handshake sock of
        None \<Rightarrow> True
      | Some h \<Rightarrow> \<not> truthy (address h) \<or>
          (address h \<in> {Some ''::1'', Some ''::ffff:127.0.0.1''} \<and>
           \<not> truthy (headers h ''x-forwarded-for'')))"
  by (auto simp: getSocketIp_def truthy_def split: option.splits)

lemma limiter_run_replicate:
  assumes ip: "getSocketIp cur = Some ip"
    and conns: "length (filter (\<lambda>s. getSocketIp s = Some ip) io) \<le> MAX_IP_CONNECTIONS"
  shows "limiter_run (replicate n (Check io cur)) cnts =
           map (\<lambda>k. MAX_IP_REQUESTS_PER_MINUTE < get_or_0 cnts ip + k) [0..<n]"
proof (induction n arbitrary: cnts)
  case 0
  then show ?case by simp
next
  case (Suc n)
  let ?cnts' = "cnts(ip \<mapsto> get_or_0 cnts ip + 1)"
  have v: "fst (clientBlocked io cur cnts) = (MAX_IP_REQUESTS_PER_MINUTE < get_or_0 cnts ip)"
    using clientBlocked_verdict(1) [OF ip, of io cnts] conns by simp
  have c: "fst (snd (clientBlocked io cur cnts)) = ?cnts'"
    by (rule clientBlocked_verdict(2) [OF ip])
  have g: "get_or_0 ?cnts' ip = get_or_0 cnts ip + 1"
    by (simp add: get_or_0_def)
  have "limiter_run (replicate (Suc n) (Check io cur)) cnts =
      (MAX_IP_REQUESTS_PER_MINUTE < get_or_0 cnts ip) #
        limiter_run (replicate n (Check io cur)) ?cnts'"
    using v c by (simp add: case_prod_beta)
  also have "limiter_run (replicate n (Check io cur)) ?cnts' =
      map (\<lambda>k. MAX_IP_REQUESTS_PER_MINUTE < get_or_0 ?cnts' ip + k) [0..<n]"
    by (rule Suc.IH)
  also have "\<dots> = map (\<lambda>k. MAX_IP_REQUESTS_PER_MINUTE < get_or_0 cnts ip + Suc k) [0..<n]"
    unfolding g by simp
  finally show ?case by (simp add: map_upt_Suc del: upt_Suc)
qed

lemma connection_limit:
  assumes "getSocketIp cur = Some ip" and "get_or_0 cnts ip \<le> MAX_IP_REQUESTS_PER_MINUTE"
  shows "fst (clientBlocked io cur cnts) \<longleftrightarrow>
           MAX_IP_CONNECTIONS < length (filter (\<lambda>s. getSocketIp s = Some ip) io)"
  using clientBlocked_verdict(1) [OF assms(1), of io cnts] assms(2) by auto

lemma window_reset_unblocks:
  assumes "getSocketIp cur = Some ip"
    and "length (filter (\<lambda>s. getSocketIp s = Some ip) io) \<le> MAX_IP_CONNECTIONS"
  shows "\<not> fst (clientBlocked io cur (clearRequestCounts cnts))"
  using clientBlocked_verdict(1) [OF assms(1), of io "clearRequestCounts cnts"] assms(2)
  by (simp add: clearRequestCounts_def get_or_0_def)

text \<open>
  Claim C7. A socket whose identity cannot be resolved (no handshake, no address or an
  empty one, or a loopback address without a non-empty \<open>x-forwarded-for\<close> header) is
  never blocked: \<open>clientBlocked\<close> returns \<open>false\<close>, logs the warning and leaves the
  request counts alone, whatever the live sockets and the counts are.
\<close>

theorem clientBlocked_fail_open:
  assumes "case handshake sock of
        None \<Rightarrow> True
      | Some h \<Rightarrow> \<not> truthy (address h) \<or>
          (address h \<in> {Some ''::1'', Some ''::ffff:127.0.0.1''} \<and>
           \<not> truthy (headers h ''x-forwarded-for''))"
  shows "getSocketIp sock = None \<and>
         clientBlocked io sock cnts = (False, cnts, [FailedToRetrieveIp])"
proof -
  have ip: "getSocketIp sock = None"
    using assms by (simp add: getSocketIp_None_iff)
  then show ?thesis by (simp add: clientBlocked_def)
qed

theorem clientBlocked_fail_open_witness:
  "getSocketIp (socket_from ''::1'') = None \<and>
   clientBlocked (replicate 11 (socket_from ''::1'')) (socket_from ''::1'') [''::1'' \<mapsto> 9] =
     (False, [''::1'' \<mapsto> 9], [FailedToRetrieveIp])"
proof -
  have h: "case handshake (socket_from ''::1'') of
        None \<Rightarrow> True
      | Some h \<Rightarrow> \<not> truthy (address h) \<or>
          (address h \<in> {Some ''::1'', Some ''::ffff:127.0.0.1''} \<and>
           \<not> truthy (headers h ''x-forwarded-for''))"
    by (simp add: socket_from_def truthy_def)
  from clientBlocked_fail_open [OF h] show ?thesis by simp
qed

text \<open>
  Claim C2, at the request limit. For an identity within the connection limit, the
  verdicts of \<open>n\<close> successive checks in one window are \<open>k > 5\<close> for
  \<open>k = 0, \<dots>, n - 1\<close> requests made before: the count compared with the limit is
  the one read before the increment, so the sixth request is still allowed and the
  seventh is the first one blocked.
\<close>

theorem sixth_request_in_window_allowed:
  assumes "getSocketIp cur = Some ip"
    and "length (filter (\<lambda>s. getSocketIp s = Some ip) io) \<le> MAX_IP_CONNECTIONS"
  shows "limiter_run (replicate n (Check io cur)) Map.empty =
           map (\<lambda>k. MAX_IP_REQUESTS_PER_MINUTE < k) [0..<n]"
proof -
  have "get_or_0 Map.empty ip = 0" by (simp add: get_or_0_def)
  with limiter_run_replicate [OF assms, of n Map.empty] show ?thesis by simp
qed

theorem sixth_request_in_window_allowed_witness:
  "limiter_run (replicate 7 (Check [socket_from ''203.0.113.7''] (socket_from ''203.0.113.7'')))
     Map.empty = [False, False, False, False, False, False, True]"
proof -
  let ?s = "socket_from ''203.0.113.7''"
  have ip: "getSocketIp ?s = Some ''203.0.113.7''"
    by (simp add: getSocketIp_def socket_from_def)
  then have conns: "length (filter (\<lambda>s. getSocketIp s = Some ''203.0.113.7'') [?s])
      \<le> MAX_IP_CONNECTIONS"
    by (simp add: MAX_IP_CONNECTIONS_def)
  have "[0..<7] = [0, 1, 2, 3, 4, 5, 6::nat]" by (simp add: upt_rec)
  with sixth_request_in_window_allowed [OF ip conns, of 7] show ?thesis
    by (simp add: MAX_IP_REQUESTS_PER_MINUTE_def)
qed

section \<open>Properties of the connection wrapper\<close>

lemmas handler_defs = effect_def emit_def log_def connect_def disconnect_def connect_fulfilled_def
  scheduleReconnect_def connect_rejected_def reconnectTimer_def on_streamEnd_def on_disconnected_def
  on_error_def

lemmas view_defs = emitted_def reconnectAttempts_def armedDelays_def upstreamDisconnects_def
  disconnectedCount_def

lemmas eval_defs = handler_defs view_defs Let_def maxReconnectAttempts_def maxReconnectWaitMs_def
  new_wrapper_def room_def connected_wrapper_def failing_reconnects_def exhausted_wrapper_def

lemma run_connected:
  "run [CallConnect, ConnectFulfilled False room] (new_wrapper ''streamer'' False 0) =
     Some connected_wrapper"
  by (simp add: eval_defs)


lemma orderly_run_exhausted:
  "orderly_run ([CallConnect, ConnectFulfilled False room] @ failing_reconnects)
     (new_wrapper ''streamer'' False 0) = Some exhausted_wrapper"
  by (simp add: eval_defs)

subsection \<open>Disconnecting\<close>

text \<open>
  Claim C1, at the failing input. The owner calls \<open>connect()\<close>, then \<open>disconnect()\<close>
  while the connect is pending, then the connect succeeds. No \<open>connected\<close> event is
  emitted, but the \<open>this.disconnect()\<close> of the success handler returns at once, because
  \<open>clientDisconnected\<close> is already set: the upstream \<open>disconnect()\<close> is never called
  and the upstream connection stays connected.
\<close>

theorem disconnect_during_connect_leaves_upstream_connected:
  "map_option (\<lambda>s. (clientDisconnected s, upIsConnected s, upstreamDisconnects s, emitted s,
                     getGlobalConnectionCount s))
     (run [CallConnect, CallDisconnect, ConnectFulfilled False state]
        (new_wrapper uid logging g)) = Some (True, True, 0, [], g + 1)"
  by (simp add: new_wrapper_def handler_defs view_defs getGlobalConnectionCount_def Let_def)

theorem disconnect_during_connect_witness:
  "map_option (\<lambda>s. (clientDisconnected s, upIsConnected s, upstreamDisconnects s, emitted s,
                     getGlobalConnectionCount s))
     (run [CallConnect, CallDisconnect, ConnectFulfilled False room]
        (new_wrapper ''streamer'' True 0)) = Some (True, True, 0, [], 1)"
  using disconnect_during_connect_leaves_upstream_connected [of room "''streamer''" True 0]
  by simp

text \<open>
  Claim C10. When a connect succeeds while \<open>clientDisconnected\<close> is already set, the
  handler still adds one to the global connection counter and resets \<open>reconnectCount\<close>
  to 0 and \<open>reconnectWaitMs\<close> to 1000 before it looks at \<open>clientDisconnected\<close>;
  nothing else changes but the console log, and nothing is emitted.
\<close>

theorem neutralized_success_is_counted:
  assumes "clientDisconnected s"
  shows "connect_fulfilled isReconnect state s =
           (log (LogConnected isReconnect state) s)
             \<lparr>reconnectCount := 0, reconnectWaitMs := 1000,
              globalConnectionCount := globalConnectionCount s + 1\<rparr> \<and>
         getGlobalConnectionCount (connect_fulfilled isReconnect state s) =
           getGlobalConnectionCount s + 1 \<and>
         reconnectCount (connect_fulfilled isReconnect state s) = 0 \<and>
         reconnectWaitMs (connect_fulfilled isReconnect state s) = 1000 \<and>
         emitted (connect_fulfilled isReconnect state s) = emitted s"
  using assms
  by (simp add: handler_defs view_defs getGlobalConnectionCount_def Let_def)

theorem neutralized_success_is_counted_witness:
  "clientDisconnected disconnect_requested \<and>
   getGlobalConnectionCount disconnect_requested = 7 \<and>
   getGlobalConnectionCount (connect_fulfilled False room disconnect_requested) = 8 \<and>
   reconnectCount (connect_fulfilled False room disconnect_requested) = 0 \<and>
   reconnectWaitMs (connect_fulfilled False room disconnect_requested) = 1000 \<and>
   emitted (connect_fulfilled False room disconnect_requested) = []"
proof -
  have h: "clientDisconnected disconnect_requested"
    by (simp add: disconnect_requested_def eval_defs)
  have g: "getGlobalConnectionCount disconnect_requested = 7"
    and e: "emitted disconnect_requested = []"
    by (simp_all add: disconnect_requested_def getGlobalConnectionCount_def eval_defs)
  from neutralized_success_is_counted [OF h, of False room, THEN conjunct2] h g e
  show ?thesis by simp
qed

lemma step_clientDisconnected:
  "step e s = Some s' \<Longrightarrow> clientDisconnected s \<Longrightarrow> clientDisconnected s'"
  by (cases e) (auto simp: handler_defs Let_def split: if_splits)

lemma run_clientDisconnected:
  "run evs s = Some s' \<Longrightarrow> clientDisconnected s \<Longrightarrow> clientDisconnected s'"
proof (induction evs arbitrary: s)
  case Nil
  then show ?case by simp
next
  case (Cons e evs)
  from Cons.prems(1) obtain s1 where st: "step e s = Some s1" and rest: "run evs s1 = Some s'"
    by (auto split: option.splits)
  from Cons.IH [OF rest step_clientDisconnected [OF st Cons.prems(2)]] show ?case .
qed

lemma disconnect_marks: "clientDisconnected (disconnect s)"
  by (simp add: handler_defs Let_def)

text \<open>
  Claim C5. \<open>disconnect()\<close> is idempotent: a second call right after the first, or
  after any further callbacks, changes nothing (no state change, no second upstream
  \<open>disconnect()\<close>, no log line).
\<close>

theorem disconnect_idempotent:
  "disconnect (disconnect s) = disconnect s \<and>
   (run evs (disconnect s) = Some s' \<longrightarrow> disconnect s' = s')"
proof
  show "disconnect (disconnect s) = disconnect s"
    using disconnect_marks [of s] by (simp add: disconnect_def [of "disconnect s"])
  show "run evs (disconnect s) = Some s' \<longrightarrow> disconnect s' = s'"
  proof
    assume "run evs (disconnect s) = Some s'"
    from run_clientDisconnected [OF this disconnect_marks]
    show "disconnect s' = s'" by (simp add: disconnect_def)
  qed
qed

theorem disconnect_idempotent_witness:
  "disconnect (disconnect connected_wrapper) = disconnect connected_wrapper \<and>
   upstreamDisconnects (disconnect (disconnect connected_wrapper)) = 1 \<and>
   run [UpstreamDisconnected] (disconnect connected_wrapper) \<noteq> None \<and>
   disconnect (the (run [UpstreamDisconnected] (disconnect connected_wrapper))) =
     the (run [UpstreamDisconnected] (disconnect connected_wrapper))"
proof -
  let ?r = "run [UpstreamDisconnected] (disconnect connected_wrapper)"
  have ne: "?r \<noteq> None" by simp
  then have r: "?r = Some (the ?r)" by simp
  have n: "upstreamDisconnects (disconnect connected_wrapper) = 1"
    by (simp add: eval_defs)
  from disconnect_idempotent [of connected_wrapper "[UpstreamDisconnected]" "the ?r"] r ne n
  show ?thesis by simp
qed

subsection \<open>The global connection counter\<close>

lemma step_count_nonneg:
  "step e s = Some s' \<Longrightarrow> 0 \<le> globalConnectionCount s \<Longrightarrow> 0 \<le> globalConnectionCount s'"
  by (cases e) (auto simp: handler_defs Let_def split: if_splits)

lemma world_step_nonneg:
  assumes "world_step ie (g, ws) = Some (g', ws')" and "0 \<le> g"
  shows "0 \<le> g'"
proof -
  obtain i e where ie: "ie = (i, e)" by (cases ie)
  from assms(1) ie obtain w' where
    st: "step e ((ws ! i)\<lparr>globalConnectionCount := g\<rparr>) = Some w'" and g': "g' = globalConnectionCount w'"
    by (auto split: if_splits option.splits)
  from step_count_nonneg [OF st] assms(2) g' show ?thesis by simp
qed

text \<open>
  Claim C6. The global connection counter is never negative: whatever callbacks the
  wrappers of the process run, in whatever order, also when upstream \<open>disconnected\<close>
  events outnumber the successful connects.
\<close>

theorem connection_count_never_negative:
  "0 \<le> g \<Longrightarrow> world_run evs (g, ws) = Some (g', ws') \<Longrightarrow> 0 \<le> g'"
proof (induction evs arbitrary: g ws)
  case Nil
  then show ?case by simp
next
  case (Cons ie evs)
  from Cons.prems(2) obtain g1 ws1 where
    st: "world_step ie (g, ws) = Some (g1, ws1)" and rest: "world_run evs (g1, ws1) = Some (g', ws')"
    by (auto split: option.splits)
  from world_step_nonneg [OF st Cons.prems(1)] have "0 \<le> g1" .
  from Cons.IH [OF this rest] show ?case .
qed

theorem connection_count_never_negative_witness:
  "map_option fst
     (world_run [(0, CallConnect), (0, ConnectFulfilled False room), (1, UpstreamDisconnected),
                 (0, UpstreamDisconnected), (0, UpstreamDisconnected)]
        (0, [new_wrapper ''streamer'' False 0, new_wrapper ''other'' False 0])) = Some 0 \<and>
   0 \<le> fst (the
     (world_run [(0, CallConnect), (0, ConnectFulfilled False room), (1, UpstreamDisconnected),
                 (0, UpstreamDisconnected), (0, UpstreamDisconnected)]
        (0, [new_wrapper ''streamer'' False 0, new_wrapper ''other'' False 0])))"
proof -
  let ?evs = "[(0, CallConnect), (0, ConnectFulfilled False room), (1, UpstreamDisconnected),
                 (0, UpstreamDisconnected), (0, UpstreamDisconnected)]"
  let ?ws = "[new_wrapper ''streamer'' False 0, new_wrapper ''other'' False 0]"
  have v: "map_option fst (world_run ?evs (0, ?ws)) = Some 0"
    by (simp add: eval_defs)
  then obtain g' ws' where r: "world_run ?evs (0, ?ws) = Some (g', ws')"
    by (cases "world_run ?evs (0, ?ws)") auto
  from connection_count_never_negative [OF _ r] have "0 \<le> g'" by simp
  with r v show ?thesis by simp
qed

subsection \<open>Reconnecting\<close>



lemma step_disabled:
  assumes "step e s = Some s'" and "\<not> reconnectEnabled s"
  shows "\<not> reconnectEnabled s' \<and> reconnectAttempts s' = reconnectAttempts s"
  using assms
  by (cases e) (auto simp: handler_defs view_defs Let_def split: if_splits)



lemma run_disabled:
  "run evs s = Some s' \<Longrightarrow> \<not> reconnectEnabled s \<Longrightarrow>
   \<not> reconnectEnabled s' \<and> reconnectAttempts s' = reconnectAttempts s"
proof (induction evs arbitrary: s)
  case Nil
  then show ?case by simp
next
  case (Cons e evs)
  from Cons.prems(1) obtain s1 where st: "step e s = Some s1" and rest: "run evs s1 = Some s'"
    by (auto split: option.splits)
  from step_disabled [OF st Cons.prems(2)] Cons.IH [OF rest] show ?case by simp
qed

lemma step_disabled_connects:
  assumes "step e s = Some s'" and "\<not> reconnectEnabled s"
  shows "upstreamConnects s' = upstreamConnects s + (if e = CallConnect then 1 else 0)"
  using assms
  by (cases e) (auto simp: handler_defs upstreamConnects_def Let_def split: if_splits)

lemma run_disabled_connects:
  "run evs s = Some s' \<Longrightarrow> \<not> reconnectEnabled s \<Longrightarrow>
   upstreamConnects s' = upstreamConnects s + count_list evs CallConnect"
proof (induction evs arbitrary: s)
  case Nil
  then show ?case by simp
next
  case (Cons e evs)
  from Cons.prems(1) obtain s1 where st: "step e s = Some s1" and rest: "run evs s1 = Some s'"
    by (auto split: option.splits)
  from step_disabled [OF st Cons.prems(2)] have d: "\<not> reconnectEnabled s1" by simp
  from step_disabled_connects [OF st Cons.prems(2)] Cons.IH [OF rest d] show ?case by simp
qed




text \<open>
  Claim C8. After the upstream \<open>streamEnd\<close> event the wrapper emits \<open>streamEnd\<close> and
  never makes another reconnect attempt, whatever happens next: further upstream
  \<open>disconnected\<close> events, timers armed earlier, connects settling. The upstream
  \<open>connect()\<close> is called again only when the owner calls \<open>connect()\<close>.
\<close>

theorem no_reconnect_after_streamEnd:
  assumes "step UpstreamStreamEnd s = Some s1" and "run evs s1 = Some s2"
  shows "emitted s1 = emitted s @ [StreamEnd] \<and> \<not> reconnectEnabled s2 \<and>
         reconnectAttempts s2 = reconnectAttempts s \<and>
         upstreamConnects s2 = upstreamConnects s + count_list evs CallConnect"
proof -
  from assms(1) have s1: "s1 = on_streamEnd s" by simp
  have d: "\<not> reconnectEnabled s1" and a: "reconnectAttempts s1 = reconnectAttempts s"
    and e: "emitted s1 = emitted s @ [StreamEnd]"
    and c: "upstreamConnects s1 = upstreamConnects s"
    by (simp_all add: s1 handler_defs view_defs upstreamConnects_def)
  from run_disabled [OF assms(2) d] run_disabled_connects [OF assms(2) d] a e c
  show ?thesis by simp
qed

theorem no_reconnect_after_streamEnd_witness:
  "pendingTimers reconnecting_wrapper = 1 \<and> reconnectEnabled reconnecting_wrapper \<and>
   emitted (on_streamEnd reconnecting_wrapper) = emitted reconnecting_wrapper @ [StreamEnd] \<and>
   run [TimerFires, UpstreamDisconnected] (on_streamEnd reconnecting_wrapper) \<noteq> None \<and>
   \<not> reconnectEnabled
       (the (run [TimerFires, UpstreamDisconnected] (on_streamEnd reconnecting_wrapper))) \<and>
   reconnectAttempts
       (the (run [TimerFires, UpstreamDisconnected] (on_streamEnd reconnecting_wrapper))) =
     reconnectAttempts reconnecting_wrapper \<and>
   upstreamConnects
       (the (run [TimerFires, UpstreamDisconnected] (on_streamEnd reconnecting_wrapper))) =
     upstreamConnects reconnecting_wrapper"
proof -
  let ?r = "run [TimerFires, UpstreamDisconnected] (on_streamEnd reconnecting_wrapper)"
  have p: "pendingTimers reconnecting_wrapper = 1 \<and> reconnectEnabled reconnecting_wrapper"
    by (simp add: reconnecting_wrapper_def eval_defs)
  have st: "step UpstreamStreamEnd reconnecting_wrapper = Some (on_streamEnd reconnecting_wrapper)"
    by simp
  have ne: "?r \<noteq> None" by (simp add: reconnecting_wrapper_def eval_defs)
  then have r: "?r = Some (the ?r)" by simp
  from no_reconnect_after_streamEnd [OF st r] p ne show ?thesis by simp
qed

subsection \<open>The \<open>disconnected\<close> event\<close>

lemma one_pending:
  assumes "b \<in> set xs" and "length xs \<le> 1"
  shows "remove1 b xs = []"
  using assms by (cases xs) auto

lemma orderly_inv_sole:
  assumes "orderly_inv s"
  shows "pendingConnects s \<noteq> [] \<Longrightarrow>
           length (pendingConnects s) = 1 \<and> pendingTimers s = 0 \<and> \<not> upOpen s \<and>
           \<not> upIsConnected s \<and> UpstreamConnect False \<in> set (trace s) \<and> disconnectedCount s = 0"
    and "0 < pendingTimers s \<Longrightarrow>
           pendingConnects s = [] \<and> pendingTimers s = 1 \<and> \<not> upOpen s \<and>
           \<not> upIsConnected s \<and> UpstreamConnect False \<in> set (trace s) \<and> disconnectedCount s = 0"
    and "upOpen s \<Longrightarrow>
           pendingConnects s = [] \<and> pendingTimers s = 0 \<and>
           UpstreamConnect False \<in> set (trace s) \<and> disconnectedCount s = 0"
    and "UpstreamConnect False \<notin> set (trace s) \<Longrightarrow>
           pendingConnects s = [] \<and> pendingTimers s = 0 \<and> \<not> upOpen s \<and>
           \<not> upIsConnected s \<and> disconnectedCount s = 0"
  using assms
  by (cases "pendingConnects s"; auto simp: orderly_inv_def live_def split: if_splits)+

lemmas orderly_defs = orderly_inv_def live_def handler_defs view_defs Let_def

lemma step_orderly_inv:
  assumes "step e s = Some s'" and "expected e s" and "orderly_inv s"
  shows "orderly_inv s'"
proof (cases e)
  case CallConnect
  with assms(2) have "UpstreamConnect False \<notin> set (trace s)" by simp
  from orderly_inv_sole(4) [OF assms(3) this]
  have "orderly_inv (connect False s)" by (simp add: orderly_defs)
  with CallConnect assms(1) show ?thesis by simp
next
  case CallDisconnect
  from assms(3) have "orderly_inv (disconnect s)"
    by (cases "pendingConnects s") (auto simp: orderly_defs split: if_splits)
  with CallDisconnect assms(1) show ?thesis by simp
next
  case (ConnectFulfilled b st)
  with assms(1) have mem: "b \<in> set (pendingConnects s)" by (simp split: if_splits)
  then have ne: "pendingConnects s \<noteq> []" by auto
  from orderly_inv_sole(1) [OF assms(3) ne] have sole: "length (pendingConnects s) = 1 \<and>
      pendingTimers s = 0 \<and> \<not> upOpen s \<and> \<not> upIsConnected s \<and>
      UpstreamConnect False \<in> set (trace s) \<and> disconnectedCount s = 0" .
  then have "remove1 b (pendingConnects s) = []" using one_pending [OF mem] by simp
  with sole have "orderly_inv (connect_fulfilled b st
      (s\<lparr>pendingConnects := remove1 b (pendingConnects s), upIsConnected := True, upOpen := True\<rparr>))"
    by (simp add: orderly_defs)
  with ConnectFulfilled assms(1) mem show ?thesis by simp
next
  case (ConnectRejected b err)
  with assms(1) have mem: "b \<in> set (pendingConnects s)" by (simp split: if_splits)
  then have ne: "pendingConnects s \<noteq> []" by auto
  from orderly_inv_sole(1) [OF assms(3) ne] have sole: "length (pendingConnects s) = 1 \<and>
      pendingTimers s = 0 \<and> \<not> upOpen s \<and> \<not> upIsConnected s \<and>
      UpstreamConnect False \<in> set (trace s) \<and> disconnectedCount s = 0" .
  then have "remove1 b (pendingConnects s) = []" using one_pending [OF mem] by simp
  with sole have "orderly_inv (connect_rejected b err
      (s\<lparr>pendingConnects := remove1 b (pendingConnects s)\<rparr>))"
    by (simp add: orderly_defs)
  with ConnectRejected assms(1) mem show ?thesis by simp
next
  case UpstreamStreamEnd
  from assms(3) have "orderly_inv (on_streamEnd s)" by (simp add: orderly_defs)
  with UpstreamStreamEnd assms(1) show ?thesis by simp
next
  case UpstreamDisconnected
  with assms(2) have "upOpen s" by simp
  from orderly_inv_sole(3) [OF assms(3) this]
  have "orderly_inv (on_disconnected (s\<lparr>upIsConnected := False, upOpen := False\<rparr>))"
    by (simp add: orderly_defs)
  with UpstreamDisconnected assms(1) show ?thesis by simp
next
  case UpstreamError
  from assms(3) have "orderly_inv (on_error s)" by (simp add: orderly_defs)
  with UpstreamError assms(1) show ?thesis by simp
next
  case TimerFires
  with assms(1) have "0 < pendingTimers s" by (simp split: if_splits)
  from orderly_inv_sole(2) [OF assms(3) this]
  have "orderly_inv (reconnectTimer (s\<lparr>pendingTimers := pendingTimers s - 1\<rparr>))"
    by (simp add: orderly_defs)
  with TimerFires assms(1) show ?thesis by (simp split: if_splits)
qed

lemma step_quiet:
  assumes "step e s = Some s'" and "expected e s" and "live s = 0" and "\<not> upIsConnected s"
  shows "live s' = 0 \<and> \<not> upIsConnected s' \<and> emitted s' = emitted s \<and>
         reconnectAttempts s' = reconnectAttempts s \<and> armedDelays s' = armedDelays s \<and>
         upstreamDisconnects s' = upstreamDisconnects s"
  using assms
  by (cases e) (auto simp: live_def handler_defs view_defs Let_def split: if_splits)

lemma orderly_run_inv:
  "orderly_run evs s = Some s' \<Longrightarrow> orderly_inv s \<Longrightarrow> orderly_inv s'"
proof (induction evs arbitrary: s)
  case Nil
  then show ?case by simp
next
  case (Cons e evs)
  from Cons.prems(1) obtain s1 where ex: "expected e s" and st: "step e s = Some s1"
    and rest: "orderly_run evs s1 = Some s'"
    by (auto split: option.splits if_splits)
  from Cons.IH [OF rest step_orderly_inv [OF st ex Cons.prems(2)]] show ?case .
qed

lemma orderly_run_quiet:
  "orderly_run evs s = Some s' \<Longrightarrow> live s = 0 \<Longrightarrow> \<not> upIsConnected s \<Longrightarrow>
   emitted s' = emitted s \<and> reconnectAttempts s' = reconnectAttempts s \<and>
   armedDelays s' = armedDelays s \<and> upstreamDisconnects s' = upstreamDisconnects s"
proof (induction evs arbitrary: s)
  case Nil
  then show ?case by simp
next
  case (Cons e evs)
  from Cons.prems(1) obtain s1 where ex: "expected e s" and st: "step e s = Some s1"
    and rest: "orderly_run evs s1 = Some s'"
    by (auto split: option.splits if_splits)
  from step_quiet [OF st ex Cons.prems(2,3)] Cons.IH [OF rest] show ?case by simp
qed

lemma new_wrapper_orderly_inv: "orderly_inv (new_wrapper uid logging g)"
  by (simp add: orderly_inv_def live_def new_wrapper_def view_defs)

text \<open>
  Claim C9 as stated fails when the upstream raises \<open>disconnected\<close> again after the
  wrapper has given up: the wrapper keeps no record of having emitted \<open>disconnected\<close>,
  and every call of \<open>#scheduleReconnect\<close> that finds reconnection disabled emits it.
  Here the stream ends, the connection closes, and one more \<open>disconnected\<close> arrives.
\<close>

theorem disconnected_twice_counterexample:
  "map_option (\<lambda>s. (emitted s, disconnectedCount s))
     (run [CallConnect, ConnectFulfilled False room, UpstreamStreamEnd, UpstreamDisconnected,
           UpstreamDisconnected]
        (new_wrapper ''streamer'' False 0)) =
   Some ([Connected room, StreamEnd, Disconnected ''Connection lost. Unknown error'',
          Disconnected ''Connection lost. Unknown error''], 2)"
  by (simp add: eval_defs)

text \<open>
  Claim C9, amended. In an orderly environment (\<open>connect()\<close> called once, one upstream
  \<open>disconnected\<close> for each established connection) \<open>disconnected\<close> is emitted at
  most once, and once it has been emitted nothing follows: no event to the owner, no
  reconnect attempt, no timer, no upstream \<open>disconnect()\<close>.
\<close>

theorem disconnected_once_when_orderly:
  assumes "orderly_run evs1 (new_wrapper uid logging g) = Some s1"
    and "orderly_run evs2 s1 = Some s2"
  shows "disconnectedCount s2 \<le> 1 \<and>
         (disconnectedCount s1 = 1 \<longrightarrow>
            emitted s2 = emitted s1 \<and> reconnectAttempts s2 = reconnectAttempts s1 \<and>
            armedDelays s2 = armedDelays s1 \<and> upstreamDisconnects s2 = upstreamDisconnects s1)"
proof -
  from orderly_run_inv [OF assms(1) new_wrapper_orderly_inv] have i1: "orderly_inv s1" .
  from orderly_run_inv [OF assms(2) i1] have "disconnectedCount s2 \<le> 1"
    by (simp add: orderly_inv_def)
  moreover have "emitted s2 = emitted s1 \<and> reconnectAttempts s2 = reconnectAttempts s1 \<and>
      armedDelays s2 = armedDelays s1 \<and> upstreamDisconnects s2 = upstreamDisconnects s1"
    if "disconnectedCount s1 = 1"
  proof -
    from that i1 have "live s1 = 0" and "\<not> upIsConnected s1"
      by (auto simp: orderly_inv_def live_def split: if_splits)
    from orderly_run_quiet [OF assms(2) this] show ?thesis .
  qed
  ultimately show ?thesis by blast
qed

theorem disconnected_once_when_orderly_witness:
  "orderly_run ([CallConnect, ConnectFulfilled False room] @ failing_reconnects)
     (new_wrapper ''streamer'' False 0) = Some exhausted_wrapper \<and>
   disconnectedCount exhausted_wrapper = 1 \<and>
   orderly_run [UpstreamError, CallDisconnect] exhausted_wrapper \<noteq> None \<and>
   (let s2 = the (orderly_run [UpstreamError, CallDisconnect] exhausted_wrapper)
    in disconnectedCount s2 \<le> 1 \<and> emitted s2 = emitted exhausted_wrapper \<and>
       reconnectAttempts s2 = reconnectAttempts exhausted_wrapper \<and>
       armedDelays s2 = armedDelays exhausted_wrapper \<and>
       upstreamDisconnects s2 = upstreamDisconnects exhausted_wrapper)"
proof -
  let ?r = "orderly_run [UpstreamError, CallDisconnect] exhausted_wrapper"
  have ne: "?r \<noteq> None" by (simp add: eval_defs)
  then have r: "?r = Some (the ?r)" by simp
  have one: "disconnectedCount exhausted_wrapper = 1" by (simp add: eval_defs)
  from disconnected_once_when_orderly [OF orderly_run_exhausted r] one ne orderly_run_exhausted
  show ?thesis by (simp add: Let_def)
qed

subsection \<open>Backoff\<close>

lemma backoff_values: "c < 5 \<Longrightarrow> (1000::nat) * 2 ^ c \<in> {1000, 2000, 4000, 8000, 16000}"
proof -
  assume "c < 5"
  then have "c = 0 \<or> c = 1 \<or> c = 2 \<or> c = 3 \<or> c = 4" by arith
  then show ?thesis by auto
qed

lemma step_backoff_inv:
  assumes "step e s = Some s'" and "backoff_inv s"
  shows "backoff_inv s'"
proof (cases e)
  case TimerFires
  from assms(2) have "reconnectCount s \<le> 5"
    by (simp add: backoff_inv_def maxReconnectAttempts_def)
  then have "reconnectCount s = 0 \<or> reconnectCount s = 1 \<or> reconnectCount s = 2 \<or>
      reconnectCount s = 3 \<or> reconnectCount s = 4 \<or> reconnectCount s = 5" by arith
  with TimerFires assms show ?thesis
    by (auto simp: backoff_inv_def handler_defs view_defs maxReconnectAttempts_def
        maxReconnectWaitMs_def split: if_splits)
next
  case UpstreamDisconnected
  with assms show ?thesis
    using backoff_values [of "reconnectCount s"]
    by (auto simp: backoff_inv_def handler_defs view_defs maxReconnectAttempts_def Let_def
        split: if_splits)
next
  case (ConnectRejected b err)
  with assms show ?thesis
    using backoff_values [of "reconnectCount s"]
    by (auto simp: backoff_inv_def handler_defs view_defs maxReconnectAttempts_def Let_def
        split: if_splits)
qed (use assms in \<open>auto simp: backoff_inv_def handler_defs view_defs Let_def split: if_splits\<close>)

lemma run_backoff_inv:
  "run evs s = Some s' \<Longrightarrow> backoff_inv s \<Longrightarrow> backoff_inv s'"
proof (induction evs arbitrary: s)
  case Nil
  then show ?case by simp
next
  case (Cons e evs)
  from Cons.prems(1) obtain s1 where st: "step e s = Some s1" and rest: "run evs s1 = Some s'"
    by (auto split: option.splits)
  from Cons.IH [OF rest step_backoff_inv [OF st Cons.prems(2)]] show ?case .
qed

lemma new_wrapper_backoff_inv: "backoff_inv (new_wrapper uid logging g)"
  by (simp add: backoff_inv_def new_wrapper_def view_defs)

text \<open>
  Claim C4 as stated lists six waits, the last of 32000 ms. When every reconnect fails,
  the timers are armed with 1000, 2000, 4000, 8000 and 16000 ms; the fifth attempt
  leaves \<open>reconnectWaitMs\<close> at 32000, but the attempts are used up and no timer is armed
  with it, also when the upstream raises \<open>disconnected\<close> once more.
\<close>

theorem backoff_sequence_counterexample:
  "map_option (\<lambda>s. (armedDelays s, reconnectAttempts s, reconnectWaitMs s, pendingTimers s,
                     pendingConnects s))
     (run (failing_reconnects @ [UpstreamDisconnected]) connected_wrapper) =
     Some ([1000, 2000, 4000, 8000, 16000], 5, 32000, 0, [])"
  by (simp add: eval_defs)

text \<open>
  Two upstream \<open>disconnected\<close> events in a row arm two timers of 1000 ms, and the
  attempts then come in pairs: the waits follow the doubling sequence in order only when
  a timer is armed at a time.
\<close>

lemma double_disconnected_waits:
  "map_option (\<lambda>s. (armedDelays s, reconnectAttempts s))
     (run [UpstreamDisconnected, UpstreamDisconnected, TimerFires, TimerFires,
           ConnectRejected True ''Error: offline'', ConnectRejected True ''Error: offline'',
           TimerFires, TimerFires,
           ConnectRejected True ''Error: offline'', ConnectRejected True ''Error: offline'',
           TimerFires, TimerFires, ConnectRejected True ''Error: offline'']
        connected_wrapper) = Some ([1000, 1000, 4000, 4000, 16000, 16000], 5)"
  by (simp add: eval_defs)

lemma orderly_run_connected:
  "orderly_run [CallConnect, ConnectFulfilled False room] (new_wrapper ''streamer'' False 0) =
     Some connected_wrapper"
  by (simp add: eval_defs)

lemma orderly_run_failing:
  "orderly_run failing_reconnects connected_wrapper = Some exhausted_wrapper"
  by (simp add: eval_defs)

lemma sched_arm:
  "c < 5 \<Longrightarrow> take (Suc (2 * c)) backoff_schedule =
     take (2 * c) backoff_schedule @ [SetTimeout (1000 * 2 ^ c)]"
proof -
  assume "c < 5"
  then have "c = 0 \<or> c = 1 \<or> c = 2 \<or> c = 3 \<or> c = 4" by arith
  then show ?thesis by (auto simp: backoff_schedule_def)
qed

lemma sched_attempt:
  "c < 5 \<Longrightarrow> take (2 * Suc c) backoff_schedule =
     take (Suc (2 * c)) backoff_schedule @ [UpstreamConnect True]"
proof -
  assume "c < 5"
  then have "c = 0 \<or> c = 1 \<or> c = 2 \<or> c = 3 \<or> c = 4" by arith
  then show ?thesis by (auto simp: backoff_schedule_def)
qed

lemmas schedule_defs = schedule_inv_def reconnectSchedule_def handler_defs Let_def
  maxReconnectAttempts_def

lemma schedule_inv_arm:
  assumes "schedule_inv base s" and "pendingTimers s = 0"
  shows "schedule_inv base (scheduleReconnect reason s)"
proof (cases "\<not> reconnectEnabled s \<or> maxReconnectAttempts \<le> reconnectCount s")
  case True
  with assms show ?thesis by (auto simp: schedule_defs)
next
  case False
  then have en: "reconnectEnabled s" and c: "reconnectCount s < 5"
    by (simp_all add: maxReconnectAttempts_def)
  from assms en have sch: "reconnectSchedule s = base @ take (2 * reconnectCount s) backoff_schedule"
    and w: "reconnectWaitMs s = 1000 * 2 ^ reconnectCount s"
    by (auto simp: schedule_inv_def)
  from en c have "reconnectSchedule (scheduleReconnect reason s) =
      reconnectSchedule s @ [SetTimeout (reconnectWaitMs s)]"
    by (simp add: reconnectSchedule_def handler_defs Let_def maxReconnectAttempts_def)
  with sch w sched_arm [OF c]
  have "reconnectSchedule (scheduleReconnect reason s) =
      base @ take (Suc (2 * reconnectCount s)) backoff_schedule" by simp
  moreover from en c assms(2) have "pendingTimers (scheduleReconnect reason s) = 1"
    and "reconnectCount (scheduleReconnect reason s) = reconnectCount s"
    and "reconnectWaitMs (scheduleReconnect reason s) = reconnectWaitMs s"
    by (simp_all add: handler_defs Let_def maxReconnectAttempts_def)
  ultimately show ?thesis using c w by (simp add: schedule_inv_def)
qed

lemma schedule_inv_fire:
  assumes "schedule_inv base s" and "pendingTimers s = 1"
  shows "schedule_inv base (reconnectTimer (s\<lparr>pendingTimers := 0\<rparr>))"
proof -
  from assms have c: "reconnectCount s < 5"
    and sch: "reconnectSchedule s = base @ take (Suc (2 * reconnectCount s)) backoff_schedule"
    and w: "reconnectWaitMs s = 1000 * 2 ^ reconnectCount s"
    by (simp_all add: schedule_inv_def)
  show ?thesis
  proof (cases "reconnectEnabled s")
    case False
    with c sch w show ?thesis by (simp add: schedule_defs)
  next
    case True
    let ?s' = "reconnectTimer (s\<lparr>pendingTimers := 0\<rparr>)"
    from True c have sch': "reconnectSchedule ?s' = reconnectSchedule s @ [UpstreamConnect True]"
      and c': "reconnectCount ?s' = Suc (reconnectCount s)"
      and p': "pendingTimers ?s' = 0"
      and w': "reconnectWaitMs ?s' = min (reconnectWaitMs s * 2) maxReconnectWaitMs"
      by (simp_all add: reconnectSchedule_def handler_defs maxReconnectAttempts_def)
    from c have "reconnectCount s = 0 \<or> reconnectCount s = 1 \<or> reconnectCount s = 2 \<or>
        reconnectCount s = 3 \<or> reconnectCount s = 4" by arith
    with w have "min (reconnectWaitMs s * 2) maxReconnectWaitMs = 1000 * 2 ^ Suc (reconnectCount s)"
      by (auto simp: maxReconnectWaitMs_def)
    with w' have w'': "reconnectWaitMs ?s' = 1000 * 2 ^ reconnectCount ?s'" by (simp add: c')
    from sch' sch sched_attempt [OF c]
    have "reconnectSchedule ?s' = base @ take (2 * reconnectCount ?s') backoff_schedule"
      by (simp add: c')
    with c c' p' w'' show ?thesis by (simp add: schedule_inv_def)
  qed
qed

lemma schedule_inv_other:
  assumes "schedule_inv base s"
    and "reconnectSchedule s' = reconnectSchedule s" and "reconnectCount s' = reconnectCount s"
    and "reconnectWaitMs s' = reconnectWaitMs s" and "pendingTimers s' = pendingTimers s"
    and "reconnectEnabled s' \<longrightarrow> reconnectEnabled s"
  shows "schedule_inv base s'"
  using assms by (auto simp: schedule_inv_def)

lemma step_schedule_inv:
  assumes "step e s = Some s'" and "expected e s" and "\<not> is_ConnectFulfilled e"
    and "orderly_inv s" and "schedule_inv base s"
  shows "schedule_inv base s'"
proof (cases e)
  case CallConnect
  have "schedule_inv base (connect False s)"
    by (rule schedule_inv_other [OF assms(5)]) (simp_all add: reconnectSchedule_def handler_defs)
  with CallConnect assms(1) show ?thesis by simp
next
  case CallDisconnect
  have "schedule_inv base (disconnect s)"
    by (rule schedule_inv_other [OF assms(5)])
      (simp_all add: reconnectSchedule_def handler_defs Let_def)
  with CallDisconnect assms(1) show ?thesis by simp
next
  case (ConnectFulfilled b st)
  with assms(3) show ?thesis by simp
next
  case (ConnectRejected b err)
  with assms(1) have mem: "b \<in> set (pendingConnects s)" by (simp split: if_splits)
  then have ne: "pendingConnects s \<noteq> []" by auto
  from orderly_inv_sole(1) [OF assms(4) ne] have p: "pendingTimers s = 0" by simp
  let ?s1 = "log (LogFailed b err) (s\<lparr>pendingConnects := remove1 b (pendingConnects s)\<rparr>)"
  have i1: "schedule_inv base ?s1"
    by (rule schedule_inv_other [OF assms(5)]) (simp_all add: reconnectSchedule_def handler_defs)
  have p1: "pendingTimers ?s1 = 0" using p by (simp add: handler_defs)
  have "schedule_inv base (connect_rejected b err
      (s\<lparr>pendingConnects := remove1 b (pendingConnects s)\<rparr>))"
  proof (cases b)
    case True
    with schedule_inv_arm [OF i1 p1, of err] show ?thesis
      by (simp add: connect_rejected_def Let_def)
  next
    case False
    have "schedule_inv base (emit (Disconnected err) ?s1)"
      by (rule schedule_inv_other [OF i1]) (simp_all add: reconnectSchedule_def handler_defs)
    with False show ?thesis by (simp add: connect_rejected_def Let_def)
  qed
  with ConnectRejected assms(1) mem show ?thesis by simp
next
  case UpstreamStreamEnd
  have "schedule_inv base (on_streamEnd s)"
    by (rule schedule_inv_other [OF assms(5)]) (simp_all add: reconnectSchedule_def handler_defs)
  with UpstreamStreamEnd assms(1) show ?thesis by simp
next
  case UpstreamDisconnected
  with assms(2) have "upOpen s" by simp
  from orderly_inv_sole(3) [OF assms(4) this] have p: "pendingTimers s = 0" by simp
  let ?s1 = "log LogUpstreamDisconnected
      (s\<lparr>upIsConnected := False, upOpen := False,
         globalConnectionCount := max 0 (globalConnectionCount s - 1)\<rparr>)"
  have i1: "schedule_inv base ?s1"
    by (rule schedule_inv_other [OF assms(5)]) (simp_all add: reconnectSchedule_def handler_defs)
  have p1: "pendingTimers ?s1 = 0" using p by (simp add: handler_defs)
  from schedule_inv_arm [OF i1 p1, of "''Unknown error''"]
  have "schedule_inv base (on_disconnected (s\<lparr>upIsConnected := False, upOpen := False\<rparr>))"
    by (simp add: on_disconnected_def)
  with UpstreamDisconnected assms(1) show ?thesis by simp
next
  case UpstreamError
  have "schedule_inv base (on_error s)"
    by (rule schedule_inv_other [OF assms(5)]) (simp_all add: reconnectSchedule_def handler_defs)
  with UpstreamError assms(1) show ?thesis by simp
next
  case TimerFires
  with assms(1) have "0 < pendingTimers s" by (simp split: if_splits)
  from orderly_inv_sole(2) [OF assms(4) this] have p: "pendingTimers s = 1" by simp
  from schedule_inv_fire [OF assms(5) p] TimerFires assms(1) p show ?thesis by simp
qed

lemma orderly_run_backoff_inv:
  "orderly_run evs s = Some s' \<Longrightarrow> backoff_inv s \<Longrightarrow> backoff_inv s'"
proof (induction evs arbitrary: s)
  case Nil
  then show ?case by simp
next
  case (Cons e evs)
  from Cons.prems(1) obtain s1 where st: "step e s = Some s1"
    and rest: "orderly_run evs s1 = Some s'"
    by (auto split: option.splits if_splits)
  from Cons.IH [OF rest step_backoff_inv [OF st Cons.prems(2)]] show ?case .
qed

lemma orderly_run_schedule_inv:
  "orderly_run evs s = Some s' \<Longrightarrow> \<forall>e\<in>set evs. \<not> is_ConnectFulfilled e \<Longrightarrow>
   orderly_inv s \<Longrightarrow> schedule_inv base s \<Longrightarrow> schedule_inv base s'"
proof (induction evs arbitrary: s)
  case Nil
  then show ?case by simp
next
  case (Cons e evs)
  from Cons.prems(1) obtain s1 where ex: "expected e s" and st: "step e s = Some s1"
    and rest: "orderly_run evs s1 = Some s'"
    by (auto split: option.splits if_splits)
  from Cons.prems(2) have ne: "\<not> is_ConnectFulfilled e"
    and nes: "\<forall>e\<in>set evs. \<not> is_ConnectFulfilled e" by simp_all
  from step_orderly_inv [OF st ex Cons.prems(3)] have o1: "orderly_inv s1" .
  from step_schedule_inv [OF st ex ne Cons.prems(3,4)] have i1: "schedule_inv base s1" .
  from Cons.IH [OF rest nes o1 i1] show ?case .
qed

lemma schedule_inv_prefix:
  assumes "schedule_inv base s"
  shows "\<exists>m. reconnectSchedule s = base @ take m backoff_schedule"
  using assms by (auto simp: schedule_inv_def split: if_splits)

text \<open>
  Claim C4, amended. In every state a wrapper can reach, \<open>reconnectWaitMs\<close> is
  \<open>1000 * 2 ^ reconnectCount\<close> with \<open>reconnectCount \<le> 5\<close>, so at most 32000, the cap;
  every timer is armed with \<open>1000 * 2 ^ reconnectCount\<close>, one of 1000, 2000, 4000, 8000,
  16000 ms, never 32000, and the timer callback that makes an attempt doubles
  \<open>reconnectWaitMs\<close>. In an orderly environment, from a state with \<open>reconnectCount\<close> 0
  and no timer armed and as long as no connect succeeds, timers and attempts take turns
  in exactly this order: 1000 ms, attempt, 2000 ms, attempt, 4000 ms, attempt, 8000 ms,
  attempt, 16000 ms, attempt, or a beginning of it.
\<close>

theorem backoff_waits:
  assumes "run evs (new_wrapper uid logging g) = Some s"
    and "orderly_run evs1 (new_wrapper uid logging g) = Some s0"
    and "reconnectCount s0 = 0" and "pendingTimers s0 = 0"
    and "\<forall>e\<in>set evs2. \<not> is_ConnectFulfilled e"
    and "orderly_run evs2 s0 = Some s2"
  shows "reconnectCount s \<le> maxReconnectAttempts \<and>
         reconnectWaitMs s = 1000 * 2 ^ reconnectCount s \<and>
         reconnectWaitMs s \<le> maxReconnectWaitMs \<and>
         set (armedDelays s) \<subseteq> {1000, 2000, 4000, 8000, 16000} \<and>
         (reconnectEnabled s \<and> reconnectCount s < maxReconnectAttempts \<longrightarrow>
            armedDelays (scheduleReconnect reason s) = armedDelays s @ [1000 * 2 ^ reconnectCount s] \<and>
            reconnectCount (reconnectTimer s) = reconnectCount s + 1 \<and>
            reconnectWaitMs (reconnectTimer s) = 2 * reconnectWaitMs s) \<and>
         (\<exists>m. reconnectSchedule s2 =
            reconnectSchedule s0 @
              take m [SetTimeout 1000, UpstreamConnect True, SetTimeout 2000, UpstreamConnect True,
                      SetTimeout 4000, UpstreamConnect True, SetTimeout 8000, UpstreamConnect True,
                      SetTimeout 16000, UpstreamConnect True])"
proof -
  from run_backoff_inv [OF assms(1) new_wrapper_backoff_inv]
  have c: "reconnectCount s \<le> maxReconnectAttempts"
    and w: "reconnectWaitMs s = 1000 * 2 ^ reconnectCount s"
    and d: "set (armedDelays s) \<subseteq> {1000, 2000, 4000, 8000, 16000}"
    by (simp_all add: backoff_inv_def)
  from c have "reconnectCount s = 5 \<or> reconnectCount s < 5"
    by (auto simp: maxReconnectAttempts_def)
  then have cap: "reconnectWaitMs s \<le> maxReconnectWaitMs"
    using backoff_values [of "reconnectCount s"] w by (auto simp: maxReconnectWaitMs_def)
  have arm: "armedDelays (scheduleReconnect reason s) = armedDelays s @ [1000 * 2 ^ reconnectCount s]"
    if "reconnectEnabled s \<and> reconnectCount s < maxReconnectAttempts"
    using that w by (simp add: handler_defs view_defs Let_def)
  have cnt: "reconnectCount (reconnectTimer s) = reconnectCount s + 1"
    if "reconnectEnabled s \<and> reconnectCount s < maxReconnectAttempts"
    using that by (simp add: handler_defs)
  have dbl: "reconnectWaitMs (reconnectTimer s) = 2 * reconnectWaitMs s"
    if "reconnectEnabled s \<and> reconnectCount s < maxReconnectAttempts"
  proof -
    from that have "reconnectCount s = 0 \<or> reconnectCount s = 1 \<or> reconnectCount s = 2 \<or>
      reconnectCount s = 3 \<or> reconnectCount s = 4"
      by (auto simp: maxReconnectAttempts_def)
    with that w show ?thesis
      by (auto simp: handler_defs maxReconnectAttempts_def maxReconnectWaitMs_def)
  qed
  from orderly_run_inv [OF assms(2) new_wrapper_orderly_inv] have o0: "orderly_inv s0" .
  from orderly_run_backoff_inv [OF assms(2) new_wrapper_backoff_inv]
  have "reconnectWaitMs s0 = 1000 * 2 ^ reconnectCount s0" by (simp add: backoff_inv_def)
  with assms(3,4) have "schedule_inv (reconnectSchedule s0) s0"
    by (simp add: schedule_inv_def)
  from orderly_run_schedule_inv [OF assms(6,5) o0 this]
  have "schedule_inv (reconnectSchedule s0) s2" .
  from schedule_inv_prefix [OF this]
  have sch: "\<exists>m. reconnectSchedule s2 =
      reconnectSchedule s0 @
        take m [SetTimeout 1000, UpstreamConnect True, SetTimeout 2000, UpstreamConnect True,
                SetTimeout 4000, UpstreamConnect True, SetTimeout 8000, UpstreamConnect True,
                SetTimeout 16000, UpstreamConnect True]"
    by (simp add: backoff_schedule_def)
  from c w cap d arm cnt dbl sch show ?thesis by blast
qed

theorem backoff_waits_witness:
  "run [CallConnect, ConnectFulfilled False room, UpstreamDisconnected, TimerFires,
        ConnectRejected True ''Error: offline'', TimerFires]
     (new_wrapper ''streamer'' False 0) \<noteq> None \<and>
   (let s = the (run [CallConnect, ConnectFulfilled False room, UpstreamDisconnected, TimerFires,
                      ConnectRejected True ''Error: offline'', TimerFires]
                   (new_wrapper ''streamer'' False 0))
    in reconnectCount s = 2 \<and> reconnectCount s \<le> maxReconnectAttempts \<and>
       reconnectWaitMs s = 1000 * 2 ^ reconnectCount s \<and>
       reconnectWaitMs s \<le> maxReconnectWaitMs \<and>
       set (armedDelays s) \<subseteq> {1000, 2000, 4000, 8000, 16000} \<and>
       armedDelays (scheduleReconnect ''Error: offline'' s) =
         armedDelays s @ [1000 * 2 ^ reconnectCount s] \<and>
       armedDelays (scheduleReconnect ''Error: offline'' s) = [1000, 2000, 4000] \<and>
       reconnectCount (reconnectTimer s) = reconnectCount s + 1 \<and>
       reconnectWaitMs (reconnectTimer s) = 2 * reconnectWaitMs s) \<and>
   reconnectCount connected_wrapper = 0 \<and> pendingTimers connected_wrapper = 0 \<and>
   reconnectSchedule connected_wrapper = [] \<and>
   reconnectSchedule exhausted_wrapper =
     [SetTimeout 1000, UpstreamConnect True, SetTimeout 2000, UpstreamConnect True,
      SetTimeout 4000, UpstreamConnect True, SetTimeout 8000, UpstreamConnect True,
      SetTimeout 16000, UpstreamConnect True] \<and>
   (\<exists>m. reconnectSchedule exhausted_wrapper =
      reconnectSchedule connected_wrapper @
        take m [SetTimeout 1000, UpstreamConnect True, SetTimeout 2000, UpstreamConnect True,
                SetTimeout 4000, UpstreamConnect True, SetTimeout 8000, UpstreamConnect True,
                SetTimeout 16000, UpstreamConnect True])"
proof -
  let ?evs = "[CallConnect, ConnectFulfilled False room, UpstreamDisconnected, TimerFires,
        ConnectRejected True ''Error: offline'', TimerFires]"
  let ?r = "run ?evs (new_wrapper ''streamer'' False 0)"
  have ne: "?r \<noteq> None" by (simp add: eval_defs)
  then have r: "?r = Some (the ?r)" by simp
  have c: "reconnectCount (the ?r) = 2" and en: "reconnectEnabled (the ?r)"
    and d: "armedDelays (the ?r) = [1000, 2000]"
    by (simp_all add: eval_defs)
  from c en have h: "reconnectEnabled (the ?r) \<and> reconnectCount (the ?r) < maxReconnectAttempts"
    by (simp add: maxReconnectAttempts_def)
  have c0: "reconnectCount connected_wrapper = 0" and p0: "pendingTimers connected_wrapper = 0"
    by (simp_all add: connected_wrapper_def)
  have nf: "\<forall>e\<in>set failing_reconnects. \<not> is_ConnectFulfilled e"
    by (simp add: failing_reconnects_def)
  have s0: "reconnectSchedule connected_wrapper = []"
    and s2: "reconnectSchedule exhausted_wrapper =
     [SetTimeout 1000, UpstreamConnect True, SetTimeout 2000, UpstreamConnect True,
      SetTimeout 4000, UpstreamConnect True, SetTimeout 8000, UpstreamConnect True,
      SetTimeout 16000, UpstreamConnect True]"
    by (simp_all add: reconnectSchedule_def connected_wrapper_def exhausted_wrapper_def)
  from backoff_waits [OF r orderly_run_connected c0 p0 nf orderly_run_failing,
      of "''Error: offline''"]
  have t: "reconnectCount (the ?r) \<le> maxReconnectAttempts \<and>
         reconnectWaitMs (the ?r) = 1000 * 2 ^ reconnectCount (the ?r) \<and>
         reconnectWaitMs (the ?r) \<le> maxReconnectWaitMs \<and>
         set (armedDelays (the ?r)) \<subseteq> {1000, 2000, 4000, 8000, 16000} \<and>
         (reconnectEnabled (the ?r) \<and> reconnectCount (the ?r) < maxReconnectAttempts \<longrightarrow>
            armedDelays (scheduleReconnect ''Error: offline'' (the ?r)) =
              armedDelays (the ?r) @ [1000 * 2 ^ reconnectCount (the ?r)] \<and>
            reconnectCount (reconnectTimer (the ?r)) = reconnectCount (the ?r) + 1 \<and>
            reconnectWaitMs (reconnectTimer (the ?r)) = 2 * reconnectWaitMs (the ?r)) \<and>
         (\<exists>m. reconnectSchedule exhausted_wrapper =
            reconnectSchedule connected_wrapper @
              take m [SetTimeout 1000, UpstreamConnect True, SetTimeout 2000, UpstreamConnect True,
                      SetTimeout 4000, UpstreamConnect True, SetTimeout 8000, UpstreamConnect True,
                      SetTimeout 16000, UpstreamConnect True])" .
  from t h have a: "armedDelays (scheduleReconnect ''Error: offline'' (the ?r)) =
              armedDelays (the ?r) @ [1000 * 2 ^ reconnectCount (the ?r)]"
    and b: "reconnectCount (reconnectTimer (the ?r)) = reconnectCount (the ?r) + 1"
    and b2: "reconnectWaitMs (reconnectTimer (the ?r)) = 2 * reconnectWaitMs (the ?r)"
    by blast+
  from a c d have a': "armedDelays (scheduleReconnect ''Error: offline'' (the ?r)) = [1000, 2000, 4000]"
    by simp
  from t ne c a a' b b2 c0 p0 s0 s2 show ?thesis unfolding Let_def by blast
qed

end
